theory Spec2Isabelle
  imports Main
begin

section \<open>Host primitives\<close>

text \<open>
  The header \<^verbatim>\<open>value.h\<close> leans on the C++ standard library for everything
  that concerns \<^verbatim>\<open>float\<close>: \<^verbatim>\<open>std::stof\<close>, the stream inserter
  \<^verbatim>\<open>operator<<\<close>, and the built-in comparison and arithmetic operators. None
  of them is code of the repository, so the payload type of a Scalar is a type
  variable \<open>'f\<close> and the primitives are fields of a record that every operation
  receives.

  Exceptions of the standard library, and reads outside the character buffer,
  are values of the type \<open>error\<close>; a function that can raise returns
  \<open>error + 'a\<close> with \<open>Inl\<close> for the exception.
\<close>

datatype error =
    bad_variant_access    \<comment> \<open>\<^verbatim>\<open>std::get<T>\<close> on a variant holding another alternative\<close>
  | invalid_argument      \<comment> \<open>\<^verbatim>\<open>std::stof\<close>: no conversion could be performed\<close>
  | out_of_range          \<comment> \<open>\<^verbatim>\<open>std::stof\<close>: the value does not fit a float\<close>
  | length_error          \<comment> \<open>\<^verbatim>\<open>std::string::reserve\<close> beyond \<^verbatim>\<open>max_size()\<close>\<close>
  | out_of_bounds_read    \<comment> \<open>dereferencing an iterator outside the buffer (undefined behaviour)\<close>

record 'f host =
  stof :: "string \<Rightarrow> error + ('f \<times> nat)"
    \<comment> \<open>\<^verbatim>\<open>std::stof(str, &size)\<close>: the float and the number of characters consumed\<close>
  put_float :: "'f \<Rightarrow> string"
    \<comment> \<open>\<^verbatim>\<open>sstream << f\<close> followed by \<^verbatim>\<open>sstream.str()\<close>\<close>
  float_zero :: "'f"
    \<comment> \<open>\<^verbatim>\<open>float{}\<close>, also the result of converting the literal \<^verbatim>\<open>0\<close>\<close>
  float_eq :: "'f \<Rightarrow> 'f \<Rightarrow> bool"
  float_le :: "'f \<Rightarrow> 'f \<Rightarrow> bool"
  float_lt :: "'f \<Rightarrow> 'f \<Rightarrow> bool"
  float_ge :: "'f \<Rightarrow> 'f \<Rightarrow> bool"
  float_gt :: "'f \<Rightarrow> 'f \<Rightarrow> bool"
  float_add :: "'f \<Rightarrow> 'f \<Rightarrow> 'f"
  float_sub :: "'f \<Rightarrow> 'f \<Rightarrow> 'f"
  float_mul :: "'f \<Rightarrow> 'f \<Rightarrow> 'f"
  float_div :: "'f \<Rightarrow> 'f \<Rightarrow> 'f"

section \<open>The class \<^verbatim>\<open>sqf::value\<close>\<close>

text \<open>
  The class has two data members that are written independently of each other:
  the tag \<^verbatim>\<open>m_type\<close> and the \<^verbatim>\<open>std::variant\<close> \<^verbatim>\<open>m_variant\<close>. Both are
  kept in the model, so that a state in which they disagree can be written down.
\<close>

datatype value_type = Nil_t | Array_t | Boolean_t | Scalar_t | String_t

datatype 'f sqf_value = Value (m_type: value_type) (m_variant: "'f variant")
  and 'f variant =
      monostate
    | vector_v "'f sqf_value list"
    | string_v string
    | bool_v bool
    | float_v 'f

subsection \<open>\<^verbatim>\<open>std::get<T>(m_variant)\<close>\<close>

definition get_float :: "'f variant \<Rightarrow> error + 'f" where
  "get_float m = (case m of float_v f \<Rightarrow> Inr f | _ \<Rightarrow> Inl bad_variant_access)"

definition get_bool :: "'f variant \<Rightarrow> error + bool" where
  "get_bool m = (case m of bool_v b \<Rightarrow> Inr b | _ \<Rightarrow> Inl bad_variant_access)"

definition get_string :: "'f variant \<Rightarrow> error + string" where
  "get_string m = (case m of string_v s \<Rightarrow> Inr s | _ \<Rightarrow> Inl bad_variant_access)"

definition get_vector :: "'f variant \<Rightarrow> error + 'f sqf_value list" where
  "get_vector m = (case m of vector_v xs \<Rightarrow> Inr xs | _ \<Rightarrow> Inl bad_variant_access)"

subsection \<open>Constructors\<close>

definition value_nil :: "'f sqf_value" where
  "value_nil = Value Nil_t monostate"

definition value_float :: "'f \<Rightarrow> 'f sqf_value" where
  "value_float scalar = Value Scalar_t (float_v scalar)"

definition value_bool :: "bool \<Rightarrow> 'f sqf_value" where
  "value_bool boolean = Value Boolean_t (bool_v boolean)"

definition value_string :: "string \<Rightarrow> 'f sqf_value" where
  "value_string s = Value String_t (string_v s)"

definition value_vector :: "'f sqf_value list \<Rightarrow> 'f sqf_value" where
  "value_vector vec = Value Array_t (vector_v vec)"

subsection \<open>The private accessors\<close>

text \<open>
  The non-const accessors assign to \<^verbatim>\<open>m_variant\<close> when the tag does not match
  and leave \<^verbatim>\<open>m_type\<close> as it is. They return their result together with the
  object after the call.
\<close>

definition as_float :: "'f host \<Rightarrow> 'f sqf_value \<Rightarrow> (error + 'f) \<times> 'f sqf_value" where
  "as_float h v =
     (let v' = (if m_type v \<noteq> Scalar_t then Value (m_type v) (float_v (float_zero h)) else v)
      in (get_float (m_variant v'), v'))"

definition as_bool :: "'f sqf_value \<Rightarrow> (error + bool) \<times> 'f sqf_value" where
  "as_bool v =
     (let v' = (if m_type v \<noteq> Boolean_t then Value (m_type v) (bool_v False) else v)
      in (get_bool (m_variant v'), v'))"

definition as_string :: "'f sqf_value \<Rightarrow> (error + string) \<times> 'f sqf_value" where
  "as_string v =
     (let v' = (if m_type v \<noteq> String_t then Value (m_type v) (string_v []) else v)
      in (get_string (m_variant v'), v'))"

definition as_array :: "'f sqf_value \<Rightarrow> (error + 'f sqf_value list) \<times> 'f sqf_value" where
  "as_array v =
     (let v' = (if m_type v \<noteq> Array_t then Value (m_type v) (vector_v []) else v)
      in (get_vector (m_variant v'), v'))"

definition as_float_const :: "'f host \<Rightarrow> 'f sqf_value \<Rightarrow> error + 'f" where
  "as_float_const h v =
     (if m_type v = Scalar_t then get_float (m_variant v) else Inr (float_zero h))"

definition as_bool_const :: "'f sqf_value \<Rightarrow> error + bool" where
  "as_bool_const v =
     (if m_type v = Boolean_t then get_bool (m_variant v) else Inr False)"

definition as_string_const :: "'f sqf_value \<Rightarrow> error + string" where
  "as_string_const v =
     (if m_type v = String_t then get_string (m_variant v) else Inr [])"

definition as_array_const :: "'f sqf_value \<Rightarrow> error + 'f sqf_value list" where
  "as_array_const v =
     (if m_type v = Array_t then get_vector (m_variant v) else Inr [])"

subsection \<open>Conversion operators and type predicates\<close>

text \<open>
  \<^verbatim>\<open>explicit operator bool()\<close> on a non-const object is the public way into
  the mutating accessor; the const overloads go to the const accessors.
\<close>

definition operator_float :: "'f host \<Rightarrow> 'f sqf_value \<Rightarrow> (error + 'f) \<times> 'f sqf_value" where
  "operator_float h v = as_float h v"

definition operator_bool :: "'f sqf_value \<Rightarrow> (error + bool) \<times> 'f sqf_value" where
  "operator_bool v = as_bool v"

definition operator_string :: "'f sqf_value \<Rightarrow> (error + string) \<times> 'f sqf_value" where
  "operator_string v = as_string v"

definition is_array :: "'f sqf_value \<Rightarrow> bool" where
  "is_array v = (m_type v = Array_t)"

definition is_scalar :: "'f sqf_value \<Rightarrow> bool" where
  "is_scalar v = (m_type v = Scalar_t)"

definition is_boolean :: "'f sqf_value \<Rightarrow> bool" where
  "is_boolean v = (m_type v = Boolean_t)"

definition is_string :: "'f sqf_value \<Rightarrow> bool" where
  "is_string v = (m_type v = String_t)"

definition is_nil :: "'f sqf_value \<Rightarrow> bool" where
  "is_nil v = (m_type v = Nil_t)"

text \<open>
  The tag and the variant agree, here and in every element of an array. Each
  constructor establishes this.
\<close>

fun tag_matches :: "'f sqf_value \<Rightarrow> bool" where
  "tag_matches (Value t m) =
     (case m of
        monostate \<Rightarrow> t = Nil_t
      | vector_v xs \<Rightarrow> t = Array_t \<and> list_all tag_matches xs
      | string_v s \<Rightarrow> t = String_t
      | bool_v b \<Rightarrow> t = Boolean_t
      | float_v f \<Rightarrow> t = Scalar_t)"

section \<open>Equality\<close>

text \<open>
  \<^verbatim>\<open>std::equal(first1, last1, first2, last2)\<close> on random-access ranges
  returns false when the two lengths differ and otherwise compares the elements
  in order with \<^verbatim>\<open>operator==\<close>, stopping at the first pair that differs. On
  two \<^verbatim>\<open>sqf::value\<close> operands \<^verbatim>\<open>operator==\<close> is \<^verbatim>\<open>equals\<close>. The element
  loop is \<open>equal_loop\<close>; the length test in \<open>equals\<close> guards it, so its last
  equation is only reached with both ranges exhausted.
\<close>

function equals :: "'f host \<Rightarrow> 'f sqf_value \<Rightarrow> 'f sqf_value \<Rightarrow> error + bool"
  and equal_loop :: "'f host \<Rightarrow> 'f sqf_value list \<Rightarrow> 'f sqf_value list \<Rightarrow> error + bool"
where
  "equals h v other =
     (if m_type other \<noteq> m_type v then Inr False
      else case m_type v of
        Nil_t \<Rightarrow> Inr True
      | Boolean_t \<Rightarrow>
          (case as_bool_const v of Inl e \<Rightarrow> Inl e | Inr a \<Rightarrow>
           case as_bool_const other of Inl e \<Rightarrow> Inl e | Inr b \<Rightarrow> Inr (a = b))
      | Scalar_t \<Rightarrow>
          (case as_float_const h v of Inl e \<Rightarrow> Inl e | Inr a \<Rightarrow>
           case as_float_const h other of Inl e \<Rightarrow> Inl e | Inr b \<Rightarrow> Inr (float_eq h a b))
      | String_t \<Rightarrow>
          (case as_string_const v of Inl e \<Rightarrow> Inl e | Inr a \<Rightarrow>
           case as_string_const other of Inl e \<Rightarrow> Inl e | Inr b \<Rightarrow> Inr (a = b))
      | Array_t \<Rightarrow>
          (case get_vector (m_variant v) of Inl e \<Rightarrow> Inl e | Inr a \<Rightarrow>
           case get_vector (m_variant other) of Inl e \<Rightarrow> Inl e | Inr b \<Rightarrow>
             if length a \<noteq> length b then Inr False else equal_loop h a b))"
| "equal_loop h (x # xs) (y # ys) =
     (case equals h x y of
        Inl e \<Rightarrow> Inl e
      | Inr r \<Rightarrow> if \<not> r then Inr False else equal_loop h xs ys)"
| "equal_loop h [] ys = Inr True"
| "equal_loop h (x # xs) [] = Inr True"
  by pat_completeness auto

lemma get_vector_size:
  "get_vector (m_variant v) = Inr a \<Longrightarrow> size_list size a < size v"
  by (cases v) (auto simp: get_vector_def split: variant.splits)

termination equals
  by (relation "measure (\<lambda>x. case x of
        Inl (h, v, other) \<Rightarrow> size v
      | Inr (h, xs, ys) \<Rightarrow> size_list size xs)")
     (auto dest: get_vector_size)

declare equals.simps [simp del]

text \<open>\<^verbatim>\<open>std::tolower\<close> in the default "C" locale: only \<^verbatim>\<open>A\<close>..\<^verbatim>\<open>Z\<close> change.\<close>

definition tolower :: "char \<Rightarrow> char" where
  "tolower c =
     (let n = (of_char c :: nat) in if 65 \<le> n \<and> n \<le> 90 then char_of (n + 32) else c)"

text \<open>The five-argument \<^verbatim>\<open>std::equal\<close>, with the lambda of \<^verbatim>\<open>equals_invariant\<close>.\<close>

fun equal_chars :: "(char \<Rightarrow> char \<Rightarrow> bool) \<Rightarrow> string \<Rightarrow> string \<Rightarrow> bool" where
  "equal_chars p (l # ls) (r # rs) = (if \<not> p l r then False else equal_chars p ls rs)"
| "equal_chars p ls rs = True"

definition equals_invariant :: "'f host \<Rightarrow> 'f sqf_value \<Rightarrow> 'f sqf_value \<Rightarrow> error + bool" where
  "equals_invariant h v other =
     (if m_type other \<noteq> m_type v then Inr False
      else case m_type v of
        Nil_t \<Rightarrow> Inr True
      | Boolean_t \<Rightarrow>
          (case as_bool_const v of Inl e \<Rightarrow> Inl e | Inr a \<Rightarrow>
           case as_bool_const other of Inl e \<Rightarrow> Inl e | Inr b \<Rightarrow> Inr (a = b))
      | Scalar_t \<Rightarrow>
          (case as_float_const h v of Inl e \<Rightarrow> Inl e | Inr a \<Rightarrow>
           case as_float_const h other of Inl e \<Rightarrow> Inl e | Inr b \<Rightarrow> Inr (float_eq h a b))
      | String_t \<Rightarrow>
          (case get_string (m_variant v) of Inl e \<Rightarrow> Inl e | Inr a \<Rightarrow>
           case get_string (m_variant other) of Inl e \<Rightarrow> Inl e | Inr b \<Rightarrow>
             Inr (length a = length b \<and> equal_chars (\<lambda>l r. tolower l = tolower r) a b))
      | Array_t \<Rightarrow>
          (case get_vector (m_variant v) of Inl e \<Rightarrow> Inl e | Inr a \<Rightarrow>
           case get_vector (m_variant other) of Inl e \<Rightarrow> Inl e | Inr b \<Rightarrow>
             if length a \<noteq> length b then Inr False else equal_loop h a b))"

section \<open>Operators against literals and other values\<close>

text \<open>
  The comparison operators take the literal as \<^verbatim>\<open>other\<close> and put it on the
  left of the built-in comparison. The \<^verbatim>\<open>double\<close> overloads first narrow the
  literal with \<^verbatim>\<open>(float)other\<close>; the cast is the parameter \<open>narrow\<close>.
\<close>

definition operator_eq_float :: "'f host \<Rightarrow> 'f sqf_value \<Rightarrow> 'f \<Rightarrow> error + bool" where
  "operator_eq_float h v other =
     (if m_type v \<noteq> Scalar_t then Inr False
      else case as_float_const h v of Inl e \<Rightarrow> Inl e | Inr p \<Rightarrow> Inr (float_eq h other p))"

definition operator_le :: "'f host \<Rightarrow> 'f sqf_value \<Rightarrow> 'f \<Rightarrow> error + bool" where
  "operator_le h v other =
     (if m_type v \<noteq> Scalar_t then Inr False
      else case as_float_const h v of Inl e \<Rightarrow> Inl e | Inr p \<Rightarrow> Inr (float_le h other p))"

definition operator_lt :: "'f host \<Rightarrow> 'f sqf_value \<Rightarrow> 'f \<Rightarrow> error + bool" where
  "operator_lt h v other =
     (if m_type v \<noteq> Scalar_t then Inr False
      else case as_float_const h v of Inl e \<Rightarrow> Inl e | Inr p \<Rightarrow> Inr (float_lt h other p))"

definition operator_ge :: "'f host \<Rightarrow> 'f sqf_value \<Rightarrow> 'f \<Rightarrow> error + bool" where
  "operator_ge h v other =
     (if m_type v \<noteq> Scalar_t then Inr False
      else case as_float_const h v of Inl e \<Rightarrow> Inl e | Inr p \<Rightarrow> Inr (float_ge h other p))"

definition operator_gt :: "'f host \<Rightarrow> 'f sqf_value \<Rightarrow> 'f \<Rightarrow> error + bool" where
  "operator_gt h v other =
     (if m_type v \<noteq> Scalar_t then Inr False
      else case as_float_const h v of Inl e \<Rightarrow> Inl e | Inr p \<Rightarrow> Inr (float_gt h other p))"

definition operator_le_double ::
  "('d \<Rightarrow> 'f) \<Rightarrow> 'f host \<Rightarrow> 'f sqf_value \<Rightarrow> 'd \<Rightarrow> error + bool" where
  "operator_le_double narrow h v other =
     (if m_type v \<noteq> Scalar_t then Inr False
      else case as_float_const h v of Inl e \<Rightarrow> Inl e
           | Inr p \<Rightarrow> Inr (float_le h (narrow other) p))"

definition operator_lt_double ::
  "('d \<Rightarrow> 'f) \<Rightarrow> 'f host \<Rightarrow> 'f sqf_value \<Rightarrow> 'd \<Rightarrow> error + bool" where
  "operator_lt_double narrow h v other =
     (if m_type v \<noteq> Scalar_t then Inr False
      else case as_float_const h v of Inl e \<Rightarrow> Inl e
           | Inr p \<Rightarrow> Inr (float_lt h (narrow other) p))"

definition operator_ge_double ::
  "('d \<Rightarrow> 'f) \<Rightarrow> 'f host \<Rightarrow> 'f sqf_value \<Rightarrow> 'd \<Rightarrow> error + bool" where
  "operator_ge_double narrow h v other =
     (if m_type v \<noteq> Scalar_t then Inr False
      else case as_float_const h v of Inl e \<Rightarrow> Inl e
           | Inr p \<Rightarrow> Inr (float_ge h (narrow other) p))"

definition operator_gt_double ::
  "('d \<Rightarrow> 'f) \<Rightarrow> 'f host \<Rightarrow> 'f sqf_value \<Rightarrow> 'd \<Rightarrow> error + bool" where
  "operator_gt_double narrow h v other =
     (if m_type v \<noteq> Scalar_t then Inr False
      else case as_float_const h v of Inl e \<Rightarrow> Inl e
           | Inr p \<Rightarrow> Inr (float_gt h (narrow other) p))"

text \<open>
  The arithmetic operators return a \<^verbatim>\<open>value\<close>: \<^verbatim>\<open>return false;\<close> goes through
  the constructor \<^verbatim>\<open>value(bool)\<close>, the float result through \<^verbatim>\<open>value(float)\<close>.
\<close>

definition operator_plus :: "'f host \<Rightarrow> 'f sqf_value \<Rightarrow> 'f sqf_value \<Rightarrow> error + 'f sqf_value" where
  "operator_plus h v other =
     (if m_type v \<noteq> Scalar_t \<or> m_type other \<noteq> Scalar_t then Inr (value_bool False)
      else case as_float_const h v of Inl e \<Rightarrow> Inl e | Inr a \<Rightarrow>
           case as_float_const h other of Inl e \<Rightarrow> Inl e | Inr b \<Rightarrow>
             Inr (value_float (float_add h a b)))"

definition operator_minus :: "'f host \<Rightarrow> 'f sqf_value \<Rightarrow> 'f sqf_value \<Rightarrow> error + 'f sqf_value" where
  "operator_minus h v other =
     (if m_type v \<noteq> Scalar_t \<or> m_type other \<noteq> Scalar_t then Inr (value_bool False)
      else case as_float_const h v of Inl e \<Rightarrow> Inl e | Inr a \<Rightarrow>
           case as_float_const h other of Inl e \<Rightarrow> Inl e | Inr b \<Rightarrow>
             Inr (value_float (float_sub h a b)))"

definition operator_times :: "'f host \<Rightarrow> 'f sqf_value \<Rightarrow> 'f sqf_value \<Rightarrow> error + 'f sqf_value" where
  "operator_times h v other =
     (if m_type v \<noteq> Scalar_t \<or> m_type other \<noteq> Scalar_t then Inr (value_bool False)
      else case as_float_const h v of Inl e \<Rightarrow> Inl e | Inr a \<Rightarrow>
           case as_float_const h other of Inl e \<Rightarrow> Inl e | Inr b \<Rightarrow>
             Inr (value_float (float_mul h a b)))"

definition operator_divide :: "'f host \<Rightarrow> 'f sqf_value \<Rightarrow> 'f sqf_value \<Rightarrow> error + 'f sqf_value" where
  "operator_divide h v other =
     (if m_type v \<noteq> Scalar_t \<or> m_type other \<noteq> Scalar_t then Inr (value_bool False)
      else case as_float_const h v of Inl e \<Rightarrow> Inl e | Inr a \<Rightarrow>
           case as_float_const h other of Inl e \<Rightarrow> Inl e | Inr b \<Rightarrow>
             Inr (value_float (float_div h a b)))"

section \<open>Serializer\<close>

definition dquote :: char where
  "dquote = CHR 0x22"

definition squote :: char where
  "squote = CHR 0x27"

text \<open>The loop of the String case: every character is appended, a double quote twice.\<close>

fun escape_chars :: "string \<Rightarrow> string" where
  "escape_chars [] = []"
| "escape_chars (c # cs) = (if c = dquote then [c, dquote] else [c]) @ escape_chars cs"

text \<open>
  \<open>to_string_items\<close> is the range-for loop of the Array case; \<open>flag\<close> is its local
  variable of that name, and the result is what the loop writes to the stream.
\<close>

function to_string :: "'f host \<Rightarrow> bool \<Rightarrow> 'f sqf_value \<Rightarrow> error + string"
  and to_string_items :: "'f host \<Rightarrow> bool \<Rightarrow> bool \<Rightarrow> 'f sqf_value list \<Rightarrow> error + string"
where
  "to_string h escape v =
     (case m_type v of
        Nil_t \<Rightarrow> Inr ''nil''
      | Array_t \<Rightarrow>
          (case get_vector (m_variant v) of Inl e \<Rightarrow> Inl e | Inr xs \<Rightarrow>
           case to_string_items h escape False xs of Inl e \<Rightarrow> Inl e | Inr s \<Rightarrow>
             Inr (''['' @ s @ '']''))
      | Boolean_t \<Rightarrow>
          (case get_bool (m_variant v) of Inl e \<Rightarrow> Inl e | Inr b \<Rightarrow>
             Inr (if b then ''true'' else ''false''))
      | Scalar_t \<Rightarrow>
          (case get_float (m_variant v) of Inl e \<Rightarrow> Inl e | Inr f \<Rightarrow> Inr (put_float h f))
      | String_t \<Rightarrow>
          (if escape
           then (case get_string (m_variant v) of Inl e \<Rightarrow> Inl e | Inr s \<Rightarrow>
                   Inr ([dquote] @ escape_chars s @ [dquote]))
           else get_string (m_variant v)))"
| "to_string_items h escape flag [] = Inr []"
| "to_string_items h escape flag (it # rest) =
     (case to_string h escape it of Inl e \<Rightarrow> Inl e | Inr s \<Rightarrow>
      case to_string_items h escape True rest of Inl e \<Rightarrow> Inl e | Inr r \<Rightarrow>
        Inr ((if flag then '','' else []) @ s @ r))"
  by pat_completeness auto

termination to_string
  by (relation "measure (\<lambda>x. case x of
        Inl (h, escape, v) \<Rightarrow> size v
      | Inr (h, escape, flag, xs) \<Rightarrow> size_list size xs)")
     (auto dest: get_vector_size)

declare to_string.simps [simp del]

section \<open>Parser\<close>

text \<open>
  A \<^verbatim>\<open>std::string_view::const_iterator\<close> is a position in the view: \<open>begin\<close> is
  a natural number and \<^verbatim>\<open>end\<close> is \<open>length view\<close>. Iterator arithmetic never
  fails; dereferencing does. \<^verbatim>\<open>parse_scalar\<close> hands \<^verbatim>\<open>data()\<close> to
  \<^verbatim>\<open>std::stof\<close>, which reads up to a terminating NUL, so the view is taken to
  span a NUL-terminated buffer (a \<^verbatim>\<open>std::string\<close> or a literal, as with
  \<^verbatim>\<open>operator"" sqf\<close>): position \<open>length view\<close> holds the terminator and
  every position after it is outside the buffer.
\<close>

definition deref :: "string \<Rightarrow> nat \<Rightarrow> error + char" where
  "deref view p =
     (if p < length view then Inr (view ! p)
      else if p = length view then Inr (CHR 0x00)
      else Inl out_of_bounds_read)"

text \<open>The C string that starts at a position of the buffer.\<close>

definition c_str :: "string \<Rightarrow> nat \<Rightarrow> string" where
  "c_str view p = takeWhile (\<lambda>c. c \<noteq> CHR 0x00) (drop p view)"

text \<open>
  \<^verbatim>\<open>std::stof\<close> throws \<^verbatim>\<open>std::invalid_argument\<close> when no conversion could be
  performed, so a call that returns has consumed at least one character.
  \<open>std_stof\<close> gives every host this part of the contract.
\<close>

definition std_stof :: "'f host \<Rightarrow> string \<Rightarrow> error + ('f \<times> nat)" where
  "std_stof h s =
     (case stof h s of
        Inl e \<Rightarrow> Inl e
      | Inr (f, sz) \<Rightarrow> if sz = 0 then Inl invalid_argument else Inr (f, sz))"

text \<open>
  \<^verbatim>\<open>target.reserve(len - quotes)\<close> subtracts the \<^verbatim>\<open>size_t\<close> \<^verbatim>\<open>quotes\<close> from the
  \<^verbatim>\<open>ptrdiff_t\<close> \<^verbatim>\<open>len\<close>, so the difference is converted to \<^verbatim>\<open>size_t\<close>, and \<^verbatim>\<open>reserve\<close>
  throws \<^verbatim>\<open>std::length_error\<close> when its argument exceeds \<^verbatim>\<open>max_size()\<close>. A
  difference that is not negative is at most the length of the view, which a
  string can hold; a negative one wraps around to the top of the \<^verbatim>\<open>size_t\<close> range,
  far above \<^verbatim>\<open>max_size()\<close>.
\<close>

definition reserve_throws :: "int \<Rightarrow> nat \<Rightarrow> bool" where
  "reserve_throws len quotes = (len - int quotes < 0)"

text \<open>
  The two loops of \<^verbatim>\<open>parse_string\<close>: \<open>find_end\<close> is the first one and returns
  \<^verbatim>\<open>copy\<close> and \<^verbatim>\<open>quotes\<close>, \<open>read_body\<close> is the second one and returns
  \<^verbatim>\<open>target\<close> and \<^verbatim>\<open>begin\<close>.
\<close>

function find_end :: "string \<Rightarrow> char \<Rightarrow> nat \<Rightarrow> nat \<Rightarrow> error + (nat \<times> nat)" where
  "find_end view c copy quotes =
     (if copy \<noteq> length view
      then (case deref view copy of Inl e \<Rightarrow> Inl e | Inr x \<Rightarrow>
              if x = c
              then (let copy1 = copy + 1 in
                    if copy1 \<noteq> length view
                    then (case deref view copy1 of Inl e \<Rightarrow> Inl e | Inr y \<Rightarrow>
                            if y = c then find_end view c (copy1 + 1) (quotes + 1)
                            else Inr (copy1, quotes))
                    else Inr (copy1, quotes))
              else find_end view c (copy + 1) quotes)
      else Inr (copy, quotes))"
  by pat_completeness auto

lemma deref_Inr_le: "deref view p = Inr x \<Longrightarrow> p \<le> length view"
  by (auto simp: deref_def split: if_splits)

termination find_end
  by (relation "measure (\<lambda>(view, c, copy, quotes). length view - copy)")
     (auto dest!: deref_Inr_le)

function read_body :: "string \<Rightarrow> char \<Rightarrow> nat \<Rightarrow> string \<Rightarrow> error + (string \<times> nat)" where
  "read_body view c b target =
     (if b \<noteq> length view
      then (case deref view b of Inl e \<Rightarrow> Inl e | Inr cur \<Rightarrow>
              if cur = c
              then (let b1 = b + 1 in
                    if b1 \<noteq> length view
                    then (case deref view b1 of Inl e \<Rightarrow> Inl e | Inr y \<Rightarrow>
                            if y = c then read_body view c (b1 + 1) (target @ [cur])
                            else Inr (target, b1))
                    else Inr (target, b1))
              else read_body view c (b + 1) (target @ [cur]))
      else Inr (target, b))"
  by pat_completeness auto

termination read_body
  by (relation "measure (\<lambda>(view, c, b, target). length view - b)")
     (auto dest!: deref_Inr_le)

declare find_end.simps [simp del] read_body.simps [simp del]

definition parse_string :: "string \<Rightarrow> nat \<Rightarrow> error + ('f sqf_value \<times> nat)" where
  "parse_string view b =
     (case deref view b of Inl e \<Rightarrow> Inl e | Inr c \<Rightarrow>
      case find_end view c (b + 1) 0 of Inl e \<Rightarrow> Inl e | Inr (copy, quotes) \<Rightarrow>
        if reserve_throws (int copy - int b - 2) quotes then Inl length_error
        else case read_body view c (b + 1) [] of Inl e \<Rightarrow> Inl e
             | Inr (target, b') \<Rightarrow> Inr (value_string target, b'))"

definition parse_boolean :: "string \<Rightarrow> nat \<Rightarrow> error + ('f sqf_value \<times> nat)" where
  "parse_boolean view b =
     (case deref view b of Inl e \<Rightarrow> Inl e | Inr c \<Rightarrow>
        if c = CHR ''t'' \<or> c = CHR ''T'' then Inr (value_bool True, b + 4)
        else Inr (value_bool False, b + 5))"

text \<open>
  \<^verbatim>\<open>view.substr(pos)\<close> throws \<^verbatim>\<open>std::out_of_range\<close> for a position beyond the
  size of the view; \<^verbatim>\<open>data()\<close> of the rest is then read as a C string.
\<close>

definition parse_scalar :: "'f host \<Rightarrow> string \<Rightarrow> nat \<Rightarrow> error + ('f sqf_value \<times> nat)" where
  "parse_scalar h view b =
     (if b > length view then Inl out_of_range
      else case std_stof h (c_str view b) of Inl e \<Rightarrow> Inl e
           | Inr (f, sz) \<Rightarrow> Inr (value_float f, b + sz))"

text \<open>
  \<open>parse_aux\<close> is \<^verbatim>\<open>value::parse_\<close>; \<open>parse_array_loop\<close> is the loop of
  \<^verbatim>\<open>parse_array\<close> from its label \<^verbatim>\<open>parse_start\<close> on, with the local vector
  \<^verbatim>\<open>values\<close> as an argument. Each function returns its value together with
  \<^verbatim>\<open>begin\<close> after the call.
\<close>

function parse_aux :: "'f host \<Rightarrow> string \<Rightarrow> nat \<Rightarrow> error + ('f sqf_value \<times> nat)"
  and parse_array :: "'f host \<Rightarrow> string \<Rightarrow> nat \<Rightarrow> error + ('f sqf_value \<times> nat)"
  and parse_array_loop ::
    "'f host \<Rightarrow> string \<Rightarrow> nat \<Rightarrow> 'f sqf_value list \<Rightarrow> error + ('f sqf_value \<times> nat)"
where
  "parse_aux h view b =
     (case deref view b of Inl e \<Rightarrow> Inl e | Inr c \<Rightarrow>
        if c = CHR ''['' then parse_array h view b
        else if c = dquote \<or> c = squote then parse_string view b
        else if c = CHR ''t'' \<or> c = CHR ''f'' then parse_boolean view b
        else if c \<in> set ''0123456789-+.'' then parse_scalar h view b
        else (let b1 = b + 1 in
              if b1 \<noteq> length view then parse_aux h view b1 else Inr (value_nil, b1)))"
| "parse_array h view b = parse_array_loop h view (b + 1) []"
| "parse_array_loop h view b values =
     (case deref view b of Inl e \<Rightarrow> Inl e | Inr c \<Rightarrow>
        if c = CHR '']'' then Inr (value_vector values, b + 1)
        else (case parse_aux h view b of Inl e \<Rightarrow> Inl e | Inr (x, b') \<Rightarrow>
                if b' \<noteq> length view then parse_array_loop h view b' (values @ [x])
                else Inr (value_nil, b')))"
  by pat_completeness auto

lemma read_body_progress: "read_body view c b target = Inr (s, b') \<Longrightarrow> b \<le> b'"
proof (induction view c b target rule: read_body.induct)
  case (1 view c b target)
  from "1.prems" show ?case
    by (subst (asm) read_body.simps)
       (auto split: if_splits sum.splits simp: Let_def dest: "1.IH")
qed

lemma parse_string_progress: "parse_string view b = Inr (x, b') \<Longrightarrow> b < b'"
  by (auto simp: parse_string_def split: sum.splits prod.splits if_splits
           dest: read_body_progress)

lemma parse_boolean_progress: "parse_boolean view b = Inr (x, b') \<Longrightarrow> b < b'"
  by (auto simp: parse_boolean_def split: sum.splits if_splits)

lemma parse_scalar_progress: "parse_scalar h view b = Inr (x, b') \<Longrightarrow> b < b'"
  by (auto simp: parse_scalar_def std_stof_def split: sum.splits prod.splits if_splits)

lemma parse_progress_dom:
  "parse_aux_parse_array_parse_array_loop_dom (Inl (h, view, b)) \<Longrightarrow>
     parse_aux h view b = Inr (x, b') \<Longrightarrow> b < b'"
  "parse_aux_parse_array_parse_array_loop_dom (Inr (Inl (h, view, b))) \<Longrightarrow>
     parse_array h view b = Inr (x, b') \<Longrightarrow> b < b'"
  "parse_aux_parse_array_parse_array_loop_dom (Inr (Inr (h, view, b, vs))) \<Longrightarrow>
     parse_array_loop h view b vs = Inr (x, b') \<Longrightarrow> b < b'"
proof (induct arbitrary: x b' and x b' and x b'
       rule: parse_aux_parse_array_parse_array_loop.pinduct)
  case (1 h view b)
  note eq = parse_aux.psimps [OF "1.hyps"(1)]
  from "1.prems" obtain c where c: "deref view b = Inr c"
    by (cases "deref view b") (simp_all add: eq)
  show ?case
  proof (cases "c = CHR ''[''")
    case True
    with "1.prems" c have "parse_array h view b = Inr (x, b')" by (simp add: eq)
    with "1.hyps"(2) [OF c True] show ?thesis .
  next
    case nb: False
    show ?thesis
    proof (cases "c = dquote \<or> c = squote")
      case True
      with "1.prems" c nb have "parse_string view b = Inr (x, b')" by (simp add: eq)
      then show ?thesis by (rule parse_string_progress)
    next
      case ns: False
      show ?thesis
      proof (cases "c = CHR ''t'' \<or> c = CHR ''f''")
        case True
        with "1.prems" c nb ns have "parse_boolean view b = Inr (x, b')" by (simp add: eq)
        then show ?thesis by (rule parse_boolean_progress)
      next
        case nt: False
        show ?thesis
        proof (cases "c \<in> set ''0123456789-+.''")
          case True
          with "1.prems" c nb ns nt have "parse_scalar h view b = Inr (x, b')"
            by (simp add: eq)
          then show ?thesis by (rule parse_scalar_progress)
        next
          case nd: False
          show ?thesis
          proof (cases "b + 1 \<noteq> length view")
            case True
            with "1.prems" c nb ns nt nd have "parse_aux h view (b + 1) = Inr (x, b')"
              by (simp add: eq)
            from "1.hyps"(3) [OF c nb ns nt nd refl True this] show ?thesis by simp
          next
            case False
            with "1.prems" c nb ns nt nd show ?thesis by (simp add: eq)
          qed
        qed
      qed
    qed
  qed
next
  case (2 h view b)
  from "2.prems" have "parse_array_loop h view (b + 1) [] = Inr (x, b')"
    by (simp add: parse_array.psimps [OF "2.hyps"(1)])
  from "2.hyps"(2) [OF this] show ?case by simp
next
  case (3 h view b vs)
  note eq = parse_array_loop.psimps [OF "3.hyps"(1)]
  from "3.prems" obtain c where c: "deref view b = Inr c"
    by (cases "deref view b") (simp_all add: eq)
  show ?case
  proof (cases "c = CHR '']''")
    case True
    with "3.prems" c show ?thesis by (simp add: eq)
  next
    case nc: False
    from "3.prems" c nc obtain y e where y: "parse_aux h view b = Inr (y, e)"
      by (cases "parse_aux h view b") (auto simp: eq)
    from "3.hyps"(2) [OF c nc y] have be: "b < e" .
    show ?thesis
    proof (cases "e \<noteq> length view")
      case True
      with "3.prems" c nc y have "parse_array_loop h view e (vs @ [y]) = Inr (x, b')"
        by (simp add: eq)
      from "3.hyps"(3) [OF c nc y refl True this] be show ?thesis by simp
    next
      case False
      with "3.prems" c nc y be show ?thesis by (simp add: eq)
    qed
  qed
qed

lemma parse_all_dom: "All parse_aux_parse_array_parse_array_loop_dom"
proof (relation "measure (\<lambda>x. case x of
          Inl (h, view, b) \<Rightarrow>
            (if length view < b then 0 else 3 * (length view + 1 - b) + 1)
        | Inr (Inl (h, view, b)) \<Rightarrow>
            (if length view < b then 1 else 3 * (length view + 1 - b))
        | Inr (Inr (h, view, b, values)) \<Rightarrow>
            (if length view < b then 0 else 3 * (length view + 1 - b) + 2))",
       goal_cases)
  case 1
  show ?case by simp
next
  case (2 h view b c)
  then show ?case by (auto dest!: deref_Inr_le)
next
  case (3 h view b c b1)
  then show ?case by (auto dest!: deref_Inr_le)
next
  case (4 h view b)
  then show ?case by auto
next
  case (5 h view b vs c)
  then show ?case by (auto dest!: deref_Inr_le)
next
  case (6 h view b vs c r x b')
  then show ?case
    by (auto dest!: deref_Inr_le dest: parse_progress_dom(1))
qed

termination parse_aux
  by (rule parse_all_dom)

lemma parse_progress:
  "parse_aux h view b = Inr (x, b') \<Longrightarrow> b < b'"
  "parse_array h view b = Inr (x, b') \<Longrightarrow> b < b'"
  "parse_array_loop h view b vs = Inr (x, b') \<Longrightarrow> b < b'"
  using parse_all_dom parse_progress_dom by blast+

declare parse_aux.simps [simp del] parse_array.simps [simp del]
  parse_array_loop.simps [simp del]

definition parse :: "'f host \<Rightarrow> string \<Rightarrow> error + 'f sqf_value" where
  "parse h view =
     (if view = [] then Inr value_nil
      else case parse_aux h view 0 of Inl e \<Rightarrow> Inl e | Inr (r, b) \<Rightarrow> Inr r)"

section \<open>A host for concrete inputs\<close>

text \<open>
  To evaluate the operations at concrete inputs the host record has to be
  filled in. \<open>demo_host\<close> takes the integers for \<open>'f\<close>: its \<open>stof\<close> reads an
  optional sign followed by at least one decimal digit and fails with
  \<^verbatim>\<open>std::invalid_argument\<close> otherwise, as \<^verbatim>\<open>std::stof\<close> does on such input, and
  its \<open>put_float\<close> writes the decimal digits back.
\<close>

definition is_digit :: "char \<Rightarrow> bool" where
  "is_digit c = (48 \<le> (of_char c :: nat) \<and> (of_char c :: nat) \<le> 57)"

definition demo_stof :: "string \<Rightarrow> error + (int \<times> nat)" where
  "demo_stof s =
     (let signed = (s \<noteq> [] \<and> (hd s = CHR ''-'' \<or> hd s = CHR ''+''));
          body = (if signed then tl s else s);
          ds = takeWhile is_digit body;
          n = int (foldl (\<lambda>a c. 10 * a + (of_char c - 48)) 0 ds)
      in if ds = [] then Inl invalid_argument
         else Inr (if s \<noteq> [] \<and> hd s = CHR ''-'' then - n else n,
                   length ds + (if signed then 1 else 0)))"

fun put_nat :: "nat \<Rightarrow> string" where
  "put_nat n =
     (if n < 10 then [char_of (48 + n)] else put_nat (n div 10) @ [char_of (48 + n mod 10)])"

declare put_nat.simps [simp del]

definition demo_put :: "int \<Rightarrow> string" where
  "demo_put i = (if i < 0 then CHR ''-'' # put_nat (nat (- i)) else put_nat (nat i))"

definition demo_host :: "int host" where
  "demo_host =
     \<lparr> stof = demo_stof, put_float = demo_put, float_zero = 0,
       float_eq = (=), float_le = (\<le>), float_lt = (<), float_ge = (\<ge>), float_gt = (>),
       float_add = (+), float_sub = (-), float_mul = (*), float_div = (div) \<rparr>"

section \<open>The round trip through text\<close>

text \<open>
  The specification's round trip \<^verbatim>\<open>parse(to_string(v, true)).equals(v)\<close>, as a
  composition of the three operations.
\<close>

definition roundtrip :: "'f host \<Rightarrow> 'f sqf_value \<Rightarrow> error + bool" where
  "roundtrip h v =
     (case to_string h True v of Inl e \<Rightarrow> Inl e | Inr s \<Rightarrow>
      case parse h s of Inl e \<Rightarrow> Inl e | Inr r \<Rightarrow> equals h r v)"

text \<open>
  A character that can follow a serialized array element: nothing, a comma or
  the closing bracket.
\<close>

definition element_end :: "string \<Rightarrow> bool" where
  "element_end rest = (rest = [] \<or> hd rest = CHR '','' \<or> hd rest = CHR '']'')"

text \<open>
  A float whose text rendering round-trips through the float parser: the
  rendering starts with a character on which \<^verbatim>\<open>parse_\<close> dispatches to
  \<^verbatim>\<open>parse_scalar\<close>, \<^verbatim>\<open>std::stof\<close> reads exactly the rendering back to the same
  float wherever the serializer can have put it, and the float equals itself.
\<close>

definition scalar_round_trips :: "'f host \<Rightarrow> 'f \<Rightarrow> bool" where
  "scalar_round_trips h f =
     (float_eq h f f \<and> put_float h f \<noteq> [] \<and> hd (put_float h f) \<in> set ''0123456789-+.''
      \<and> (\<forall>rest. element_end rest \<longrightarrow>
            stof h (c_str (put_float h f @ rest) 0) = Inr (f, length (put_float h f))))"

text \<open>
  The values that have a literal of their own in the parser: Boolean, String,
  Scalar with a rendering that round-trips, and Array of such values. Nil has
  none (\<^verbatim>\<open>parse_\<close> has no case for \<^verbatim>\<open>n\<close>).
\<close>

fun has_literal :: "'f host \<Rightarrow> 'f sqf_value \<Rightarrow> bool" where
  "has_literal h (Value t m) =
     (case m of
        monostate \<Rightarrow> False
      | vector_v xs \<Rightarrow> t = Array_t \<and> list_all (has_literal h) xs
      | string_v s \<Rightarrow> t = String_t
      | bool_v b \<Rightarrow> t = Boolean_t
      | float_v f \<Rightarrow> t = Scalar_t \<and> scalar_round_trips h f)"

text \<open>
  The serialized text of a value is read back: it is not empty, does not start
  with a closing bracket, and \<^verbatim>\<open>parse_\<close> started at its first character returns
  the value and stops right behind the text, whatever stands before it and
  whenever what follows can follow an array element.
\<close>

definition reads_back :: "'f host \<Rightarrow> 'f sqf_value \<Rightarrow> bool" where
  "reads_back h v =
     (\<exists>s. to_string h True v = Inr s \<and> s \<noteq> [] \<and> hd s \<noteq> CHR '']''
        \<and> (\<forall>pre rest. element_end rest \<longrightarrow>
              parse_aux h (pre @ s @ rest) (length pre) = Inr (v, length pre + length s)))"

section \<open>The ways a parse can fail\<close>


text \<open>
  The body of a string that is never closed: a text in which the delimiter
  occurs only doubled, as the second loop of \<^verbatim>\<open>parse_string\<close> reads it.
\<close>

fun double_delimiter :: "char \<Rightarrow> string \<Rightarrow> string" where
  "double_delimiter q [] = []"
| "double_delimiter q (c # cs) = (if c = q then [c, q] else [c]) @ double_delimiter q cs"

section \<open>Properties\<close>

subsection \<open>Evaluation of the constructors\<close>

lemma m_type_value [simp]:
  "m_type (value_nil :: 'f sqf_value) = Nil_t"
  "m_type (value_float x) = Scalar_t"
  "m_type (value_bool b) = Boolean_t"
  "m_type (value_string s) = String_t"
  "m_type (value_vector xs) = Array_t"
  by (simp_all add: value_nil_def value_float_def value_bool_def value_string_def
        value_vector_def)

lemma m_variant_value [simp]:
  "m_variant (value_nil :: 'f sqf_value) = monostate"
  "m_variant (value_float x) = float_v x"
  "m_variant (value_bool b) = bool_v b"
  "m_variant (value_string s) = string_v s"
  "m_variant (value_vector xs) = vector_v xs"
  by (simp_all add: value_nil_def value_float_def value_bool_def value_string_def
        value_vector_def)

lemma get_simps [simp]:
  "get_float (float_v x) = Inr x"
  "get_bool (bool_v b) = Inr b"
  "get_string (string_v s) = Inr s"
  "get_vector (vector_v xs) = Inr xs"
  "get_float (bool_v b) = Inl bad_variant_access"
  by (simp_all add: get_float_def get_bool_def get_string_def get_vector_def)

lemma equals_atoms:
  "equals h value_nil value_nil = Inr True"
  "equals h (value_bool a) (value_bool b) = Inr (a = b)"
  "equals h (value_float x) (value_float y) = Inr (float_eq h x y)"
  "equals h (value_string s) (value_string t) = Inr (s = t)"
  by (simp_all add: equals.simps as_bool_const_def as_float_const_def as_string_const_def)

lemma equals_vectors:
  "equals h (value_vector xs) (value_vector ys) =
     (if length xs \<noteq> length ys then Inr False else equal_loop h xs ys)"
  by (simp add: equals.simps)

lemma equals_mismatch:
  "m_type other \<noteq> m_type v \<Longrightarrow> equals h v other = Inr False"
  by (simp add: equals.simps)

lemma equal_loop_True:
  "length xs = length ys \<Longrightarrow>
     (equal_loop h xs ys = Inr True) = list_all2 (\<lambda>x y. equals h x y = Inr True) xs ys"
  by (induction xs ys rule: list_induct2) (auto split: sum.splits)

lemma equal_chars_same_length:
  "length a = length b \<Longrightarrow> equal_chars p a b = list_all2 p a b"
  by (induction a b rule: list_induct2) auto

lemma equal_chars_all2:
  "(length a = length b \<and> equal_chars p a b) = list_all2 p a b"
  using equal_chars_same_length [of a b p] by (auto dest: list_all2_lengthD)

lemma map_eq_all2: "(map f a = map f b) = list_all2 (\<lambda>l r. f l = f r) a b"
  by (induction a arbitrary: b) (auto simp: list_all2_Cons1 Cons_eq_map_conv)

lemma demo_digits:
  "c \<in> set ''12345'' \<Longrightarrow> element_end rest \<Longrightarrow>
     stof demo_host (c # rest) = Inr (int (of_char c) - 48, 1)"
  by (cases rest) (auto simp: demo_host_def demo_stof_def element_end_def is_digit_def)

subsection \<open>The two loops of \<^verbatim>\<open>parse_string\<close>\<close>

lemma deref_in_range [simp]: "p < length view \<Longrightarrow> deref view p = Inr (view ! p)"
  by (simp add: deref_def)

lemma find_end_bound:
  "p \<le> length view \<Longrightarrow>
     \<exists>copy n. find_end view c p q = Inr (copy, n) \<and> copy \<le> length view
       \<and> p + n \<le> copy + q \<and> (p < length view \<longrightarrow> p + 1 + n \<le> copy + q)"
proof (induction view c p q rule: find_end.induct)
  case (1 view c copy quotes)
  show ?case
  proof (cases "copy = length view")
    case True
    then show ?thesis by (simp add: find_end.simps)
  next
    case False
    with "1.prems" have lt: "copy < length view" by simp
    show ?thesis
    proof (cases "view ! copy = c")
      case nc: False
      from lt nc have eq: "find_end view c copy quotes = find_end view c (copy + 1) quotes"
        by (subst find_end.simps) simp
      from "1.IH"(2) [OF False _ nc] lt
      obtain cp n where "find_end view c (copy + 1) quotes = Inr (cp, n)"
        "cp \<le> length view" "copy + 1 + n \<le> cp + quotes"
        by (auto simp: deref_def)
      with eq lt show ?thesis by auto
    next
      case isc: True
      show ?thesis
      proof (cases "copy + 1 \<noteq> length view \<and> view ! (copy + 1) = c")
        case False
        with lt isc have "find_end view c copy quotes = Inr (copy + 1, quotes)"
          by (subst find_end.simps) (auto simp: Let_def deref_def)
        with lt show ?thesis by auto
      next
        case True
        with lt have lt2: "copy + 1 < length view" by simp
        from lt lt2 isc True
        have eq: "find_end view c copy quotes = find_end view c (copy + 1 + 1) (quotes + 1)"
          by (subst find_end.simps) (simp add: Let_def)
        from True lt2 isc lt
        have "\<exists>cp n. find_end view c (copy + 1 + 1) (quotes + 1) = Inr (cp, n)
                \<and> cp \<le> length view \<and> copy + 1 + 1 + n \<le> cp + (quotes + 1)
                \<and> (copy + 1 + 1 < length view \<longrightarrow> copy + 1 + 1 + 1 + n \<le> cp + (quotes + 1))"
          by (intro "1.IH"(1) [OF False _ _ refl]) (auto simp: deref_def)
        with eq show ?thesis by auto
      qed
    qed
  qed
qed


lemma parse_string_body:
  assumes "b + 1 < length view"
  shows "parse_string view b =
           (case read_body view (view ! b) (b + 1) [] of
              Inl e \<Rightarrow> Inl e
            | Inr (target, b') \<Rightarrow> Inr (value_string target, b'))"
proof -
  from assms have d: "deref view b = Inr (view ! b)" by simp
  from find_end_bound [of "b + 1" view "view ! b" 0] assms
  obtain cp n where f: "find_end view (view ! b) (b + 1) 0 = Inr (cp, n)"
    and "b + 1 + 1 + n \<le> cp" by auto
  then have "\<not> reserve_throws (int cp - int b - 2) n"
    by (simp add: reserve_throws_def)
  with d f show ?thesis by (simp add: parse_string_def)
qed

lemma read_body_unterminated:
  "b \<le> length view \<Longrightarrow> c \<notin> set (drop b view) \<Longrightarrow>
     read_body view c b target = Inr (target @ drop b view, length view)"
proof (induction view c b target rule: read_body.induct)
  case (1 view c b target)
  show ?case
  proof (cases "b = length view")
    case True
    then show ?thesis by (simp add: read_body.simps)
  next
    case False
    with "1.prems" have lt: "b < length view" by simp
    then have dr: "drop b view = view ! b # drop (b + 1) view"
      by (simp add: Cons_nth_drop_Suc)
    with "1.prems" have nc: "view ! b \<noteq> c" and rest: "c \<notin> set (drop (b + 1) view)"
      by auto
    from lt nc have "read_body view c b target = read_body view c (b + 1) (target @ [view ! b])"
      by (subst read_body.simps) simp
    also from lt rest have "\<dots> = Inr ((target @ [view ! b]) @ drop (b + 1) view, length view)"
      by (intro "1.IH"(2) [OF False _ nc]) auto
    finally show ?thesis using dr by simp
  qed
qed









subsection \<open>Errors of the recursive descent\<close>


subsection \<open>Reading the literals back\<close>

lemma deref_append [simp]: "deref (pre @ c # ys) (length pre) = Inr c"
  by (simp add: deref_def)

lemma read_body_escaped:
  "rest = [] \<or> hd rest \<noteq> dquote \<Longrightarrow>
     read_body (pre @ escape_chars s @ dquote # rest) dquote (length pre) target
       = Inr (target @ s, length pre + length (escape_chars s) + 1)"
proof (induction s arbitrary: pre target)
  case Nil
  show ?case
  proof (cases rest)
    case Nil
    then show ?thesis
      by (subst read_body.simps) (simp add: Let_def)
  next
    case (Cons r rs)
    with Nil.prems have "r \<noteq> dquote" by simp
    with Cons show ?thesis
      by (subst read_body.simps) (simp add: Let_def deref_def nth_append)
  qed
next
  case (Cons x xs)
  show ?case
  proof (cases "x = dquote")
    case True
    have "read_body (pre @ escape_chars (x # xs) @ dquote # rest) dquote (length pre) target
            = read_body ((pre @ [dquote, dquote]) @ escape_chars xs @ dquote # rest) dquote
                (length (pre @ [dquote, dquote])) (target @ [dquote])"
      using True by (subst read_body.simps) (simp add: Let_def deref_def nth_append)
    also have "\<dots> = Inr ((target @ [dquote]) @ xs,
                     length (pre @ [dquote, dquote]) + length (escape_chars xs) + 1)"
      by (rule Cons.IH [OF Cons.prems])
    finally show ?thesis using True by simp
  next
    case False
    have "read_body (pre @ escape_chars (x # xs) @ dquote # rest) dquote (length pre) target
            = read_body ((pre @ [x]) @ escape_chars xs @ dquote # rest) dquote
                (length (pre @ [x])) (target @ [x])"
      using False by (subst read_body.simps) (simp add: Let_def deref_def nth_append)
    also have "\<dots> = Inr ((target @ [x]) @ xs,
                     length (pre @ [x]) + length (escape_chars xs) + 1)"
      by (rule Cons.IH [OF Cons.prems])
    finally show ?thesis using False by simp
  qed
qed

lemma parse_aux_string:
  assumes "rest = [] \<or> hd rest \<noteq> dquote"
  shows "parse_aux h (pre @ dquote # escape_chars s @ dquote # rest) (length pre)
           = Inr (value_string s, length pre + length (escape_chars s) + 2)"
proof -
  let ?view = "pre @ dquote # escape_chars s @ dquote # rest"
  have "parse_aux h ?view (length pre) = parse_string ?view (length pre)"
    by (subst parse_aux.simps) (simp add: dquote_def)
  also have "\<dots> = (case read_body ?view (?view ! length pre) (length pre + 1) [] of
              Inl e \<Rightarrow> Inl e
            | Inr (target, b') \<Rightarrow> Inr (value_string target, b'))"
    by (rule parse_string_body) simp
  also have "?view ! length pre = dquote" by simp
  also have "read_body ?view dquote (length pre + 1) []
        = read_body ((pre @ [dquote]) @ escape_chars s @ dquote # rest) dquote
            (length (pre @ [dquote])) []" by simp
  also have "\<dots> = Inr ([] @ s, length (pre @ [dquote]) + length (escape_chars s) + 1)"
    by (rule read_body_escaped [OF assms])
  finally show ?thesis by simp
qed

lemma parse_aux_true:
  "parse_aux h (pre @ ''true'' @ rest) (length pre) = Inr (value_bool True, length pre + 4)"
  by (subst parse_aux.simps) (simp add: parse_boolean_def dquote_def squote_def)

lemma parse_aux_false:
  "parse_aux h (pre @ ''false'' @ rest) (length pre) = Inr (value_bool False, length pre + 5)"
  by (subst parse_aux.simps) (simp add: parse_boolean_def dquote_def squote_def)

lemma c_str_append: "c_str (pre @ s) (length pre) = c_str s 0"
  by (simp add: c_str_def)

lemma parse_aux_scalar:
  assumes "scalar_round_trips h f" "element_end rest"
  shows "parse_aux h (pre @ put_float h f @ rest) (length pre)
           = Inr (value_float f, length pre + length (put_float h f))"
proof -
  let ?s = "put_float h f"
  let ?view = "pre @ ?s @ rest"
  from assms obtain c cs where s: "?s = c # cs" and c: "c \<in> set ''0123456789-+.''"
    by (cases ?s) (auto simp: scalar_round_trips_def)
  from c have nc: "c \<noteq> CHR ''[''" "\<not> (c = dquote \<or> c = squote)"
    "\<not> (c = CHR ''t'' \<or> c = CHR ''f'')"
    by (auto simp: dquote_def squote_def)
  have d: "deref ?view (length pre) = Inr c" by (simp add: s)
  have "parse_aux h ?view (length pre) = parse_scalar h ?view (length pre)"
    using d nc c by (subst parse_aux.simps) simp
  moreover from assms have "stof h (c_str (?s @ rest) 0) = Inr (f, length ?s)"
    by (simp add: scalar_round_trips_def)
  then have "std_stof h (c_str ?view (length pre)) = Inr (f, length ?s)"
    by (simp add: std_stof_def c_str_append s)
  ultimately show ?thesis by (simp add: parse_scalar_def)
qed

lemma parse_aux_comma:
  "ys \<noteq> [] \<Longrightarrow>
     parse_aux h (pre @ CHR '','' # ys) (length pre)
       = parse_aux h (pre @ CHR '','' # ys) (length pre + 1)"
  by (subst parse_aux.simps) (simp add: dquote_def squote_def Let_def)

subsection \<open>Strings that are never closed\<close>


lemma double_delimiter_empty [simp]: "(double_delimiter q s = []) = (s = [])"
  by (cases s) auto




subsection \<open>Arrays and the round trip\<close>


lemma parse_array_loop_close:
  "parse_array_loop h (pre @ CHR '']'' # rest) (length pre) acc
     = Inr (value_vector acc, length pre + 1)"
  by (subst parse_array_loop.simps) simp

lemma parse_array_loop_step:
  assumes "deref view b = Inr c" "c \<noteq> CHR '']''"
    and "parse_aux h view b = Inr (x, b')" "b' \<noteq> length view"
  shows "parse_array_loop h view b acc = parse_array_loop h view b' (acc @ [x])"
  using assms by (subst parse_array_loop.simps) simp

lemma items_read_back:
  assumes "\<forall>x \<in> set xs. reads_back h x"
  shows "\<exists>s. to_string_items h True flag xs = Inr s
           \<and> (flag \<longrightarrow> s = [] \<or> hd s = CHR '','')
           \<and> (s = [] \<or> hd s \<noteq> CHR '']'')
           \<and> (\<forall>pre rest acc.
                 parse_array_loop h (pre @ s @ CHR '']'' # rest) (length pre) acc
                   = Inr (value_vector (acc @ xs), length pre + length s + 1))"
  using assms
proof (induction xs arbitrary: flag)
  case Nil
  show ?case by (simp add: parse_array_loop_close)
next
  case (Cons it its)
  from Cons.prems obtain si where si: "to_string h True it = Inr si" "si \<noteq> []"
    "hd si \<noteq> CHR '']''"
    and rd: "\<And>pre rest. element_end rest \<Longrightarrow>
          parse_aux h (pre @ si @ rest) (length pre) = Inr (it, length pre + length si)"
    by (auto simp: reads_back_def)
  from Cons.prems have "\<forall>x \<in> set its. reads_back h x" by simp
  from Cons.IH [OF this, of True]
  obtain sr where sr: "to_string_items h True True its = Inr sr"
    "sr = [] \<or> hd sr = CHR '',''"
    and loop: "\<And>pre rest acc.
          parse_array_loop h (pre @ sr @ CHR '']'' # rest) (length pre) acc
            = Inr (value_vector (acc @ its), length pre + length sr + 1)"
    by auto
  let ?sep = "if flag then '','' else []"
  let ?s = "?sep @ si @ sr"
  have s: "to_string_items h True flag (it # its) = Inr ?s"
    using si sr by simp
  have ee: "element_end (sr @ CHR '']'' # rest)" for rest
    using sr(2) by (cases sr) (auto simp: element_end_def)
  have "parse_array_loop h (pre @ ?s @ CHR '']'' # rest) (length pre) acc
          = Inr (value_vector (acc @ it # its), length pre + length ?s + 1)" for pre rest acc
  proof -
    let ?view = "pre @ ?s @ CHR '']'' # rest"
    obtain c cs where c: "?sep @ si = c # cs" "c \<noteq> CHR '']''"
      using si(2,3) by (cases si; cases flag) auto
    have v: "?view = (pre @ ?sep) @ si @ (sr @ CHR '']'' # rest)" by simp
    have el: "parse_aux h ?view (length (pre @ ?sep))
                = Inr (it, length (pre @ ?sep) + length si)"
      unfolding v by (rule rd [OF ee])
    have first: "parse_aux h ?view (length pre) = Inr (it, length (pre @ ?sep) + length si)"
    proof (cases flag)
      case True
      have "parse_aux h ?view (length pre) = parse_aux h ?view (length pre + 1)"
        using True si(2) parse_aux_comma [of "si @ sr @ CHR '']'' # rest" h pre] by simp
      with el True show ?thesis by simp
    next
      case False
      with el show ?thesis by simp
    qed
    have d: "deref ?view (length pre) = Inr c"
    proof -
      from c(1) have "?view = pre @ c # (cs @ sr @ CHR '']'' # rest)"
        by (metis append.assoc append_Cons)
      then show ?thesis by (metis deref_append)
    qed
    have ne: "length (pre @ ?sep) + length si \<noteq> length ?view" by simp
    have "parse_array_loop h ?view (length pre) acc
            = parse_array_loop h ?view (length (pre @ ?sep) + length si) (acc @ [it])"
      by (rule parse_array_loop_step [OF d c(2) first ne])
    also have "?view = (pre @ ?sep @ si) @ sr @ CHR '']'' # rest" by simp
    also have "parse_array_loop h \<dots> (length (pre @ ?sep) + length si) (acc @ [it])
                 = parse_array_loop h ((pre @ ?sep @ si) @ sr @ CHR '']'' # rest)
                     (length (pre @ ?sep @ si)) (acc @ [it])" by simp
    also have "\<dots> = Inr (value_vector ((acc @ [it]) @ its),
                      length (pre @ ?sep @ si) + length sr + 1)"
      by (rule loop)
    finally show ?thesis by simp
  qed
  moreover have "flag \<longrightarrow> ?s = [] \<or> hd ?s = CHR '',''" by simp
  moreover have "?s = [] \<or> hd ?s \<noteq> CHR '']''"
    using si(2,3) by (cases flag) auto
  ultimately show ?case using s by blast
qed

lemma size_in_vector: "x \<in> set xs \<Longrightarrow> size x < size (Value t (vector_v xs))"
  by (induction xs) auto

lemma element_end_no_dquote: "element_end rest \<Longrightarrow> rest = [] \<or> hd rest \<noteq> dquote"
  by (auto simp: element_end_def dquote_def)

lemma has_literal_reads_back: "has_literal h v \<Longrightarrow> reads_back h v"
proof (induction v rule: measure_induct_rule [of size])
  case (less v)
  obtain t m where v: "v = Value t m" by (cases v)
  show ?case
  proof (cases m)
    case monostate
    with less.prems v show ?thesis by simp
  next
    case (vector_v xs)
    with less.prems v have t: "t = Array_t" and all: "list_all (has_literal h) xs" by simp_all
    have "\<forall>x \<in> set xs. reads_back h x"
    proof
      fix x assume x: "x \<in> set xs"
      with all have "has_literal h x" by (simp add: list_all_iff)
      moreover from x have "size x < size v" unfolding v vector_v by (rule size_in_vector)
      ultimately show "reads_back h x" by (rule less.IH [rotated])
    qed
    from items_read_back [OF this, of False]
    obtain si where si: "to_string_items h True False xs = Inr si"
      and loop: "\<And>pre rest acc.
          parse_array_loop h (pre @ si @ CHR '']'' # rest) (length pre) acc
            = Inr (value_vector (acc @ xs), length pre + length si + 1)"
      by auto
    let ?s = "''['' @ si @ '']''"
    have s: "to_string h True v = Inr ?s"
      unfolding v vector_v t using si by (subst to_string.simps) simp
    have "parse_aux h (pre @ ?s @ rest) (length pre) = Inr (v, length pre + length ?s)"
      for pre rest
    proof -
      have "parse_aux h (pre @ ?s @ rest) (length pre)
              = parse_array_loop h ((pre @ ''['') @ si @ CHR '']'' # rest)
                  (length (pre @ ''['')) []"
        by (subst parse_aux.simps) (simp add: parse_array.simps)
      also have "\<dots> = Inr (value_vector ([] @ xs), length (pre @ ''['') + length si + 1)"
        by (rule loop)
      finally show ?thesis by (simp add: v vector_v t value_vector_def)
    qed
    with s show ?thesis by (auto simp: reads_back_def)
  next
    case (string_v str)
    with less.prems v have t: "t = String_t" by simp
    let ?s = "[dquote] @ escape_chars str @ [dquote]"
    have s: "to_string h True v = Inr ?s"
      unfolding v string_v t by (subst to_string.simps) simp
    have "parse_aux h (pre @ ?s @ rest) (length pre) = Inr (v, length pre + length ?s)"
      if "element_end rest" for pre rest
      using parse_aux_string [OF element_end_no_dquote [OF that], of h pre str]
      by (simp add: v string_v t value_string_def)
    moreover have "hd ?s \<noteq> CHR '']''" by (simp add: dquote_def)
    ultimately show ?thesis using s by (auto simp: reads_back_def)
  next
    case (bool_v b)
    with less.prems v have t: "t = Boolean_t" by simp
    let ?s = "if b then ''true'' else ''false''"
    have s: "to_string h True v = Inr ?s"
      unfolding v bool_v t by (subst to_string.simps) simp
    have "parse_aux h (pre @ ?s @ rest) (length pre) = Inr (v, length pre + length ?s)"
      for pre rest
      using parse_aux_true [of h pre rest] parse_aux_false [of h pre rest]
      by (simp add: v bool_v t value_bool_def)
    with s show ?thesis by (auto simp: reads_back_def)
  next
    case (float_v f)
    with less.prems v have t: "t = Scalar_t" and f: "scalar_round_trips h f" by simp_all
    let ?s = "put_float h f"
    have s: "to_string h True v = Inr ?s"
      unfolding v float_v t by (subst to_string.simps) simp
    have "parse_aux h (pre @ ?s @ rest) (length pre) = Inr (v, length pre + length ?s)"
      if "element_end rest" for pre rest
      using parse_aux_scalar [OF f that, of pre]
      by (simp add: v float_v t value_float_def)
    moreover from f have "?s \<noteq> []" "hd ?s \<noteq> CHR '']''"
      by (auto simp: scalar_round_trips_def)
    ultimately show ?thesis using s by (auto simp: reads_back_def)
  qed
qed

lemma equals_refl: "has_literal h v \<Longrightarrow> equals h v v = Inr True"
proof (induction v rule: measure_induct_rule [of size])
  case (less v)
  obtain t m where v: "v = Value t m" by (cases v)
  show ?case
  proof (cases m)
    case monostate
    with less.prems v show ?thesis by simp
  next
    case (vector_v xs)
    with less.prems v have t: "t = Array_t" and all: "list_all (has_literal h) xs" by simp_all
    have "\<forall>x \<in> set xs. equals h x x = Inr True"
    proof
      fix x assume x: "x \<in> set xs"
      with all have "has_literal h x" by (simp add: list_all_iff)
      moreover from x have "size x < size v" unfolding v vector_v by (rule size_in_vector)
      ultimately show "equals h x x = Inr True" by (rule less.IH [rotated])
    qed
    then have "equal_loop h xs xs = Inr True"
      by (simp add: equal_loop_True list_all2_same)
    then show ?thesis
      using equals_vectors [of h xs xs] by (simp add: v vector_v t value_vector_def)
  next
    case (string_v str)
    with less.prems v show ?thesis
      using equals_atoms(4) [of h str str] by (simp add: value_string_def)
  next
    case (bool_v b)
    with less.prems v show ?thesis
      using equals_atoms(2) [of h b b] by (simp add: value_bool_def)
  next
    case (float_v f)
    with less.prems v show ?thesis
      using equals_atoms(3) [of h f f] by (simp add: value_float_def scalar_round_trips_def)
  qed
qed

lemma demo_scalar_12: "scalar_round_trips demo_host 12"
proof -
  have p: "demo_put 12 = ''12''"
    by code_simp
  have "stof demo_host (c_str (''12'' @ rest) 0) = Inr (12, 2)" if "element_end rest" for rest
    using that
    by (cases rest)
       (auto simp: element_end_def demo_host_def demo_stof_def c_str_def is_digit_def)
  with p show ?thesis
    by (simp add: scalar_round_trips_def demo_host_def)
qed

subsection \<open>The mutating accessor\<close>

text \<open>
  Claim C1. On \<open>Scalar(5.0)\<close>, or any other Scalar, the mutating boolean accessor
  returns \<open>false\<close> and replaces the payload by the boolean \<open>false\<close>, but the tag
  \<^verbatim>\<open>m_type\<close> stays \<^verbatim>\<open>Scalar\<close>: \<^verbatim>\<open>is_scalar()\<close> is still true afterwards and
  \<^verbatim>\<open>is_boolean()\<close> is still false. The claim expects the tag to change as well.
\<close>

theorem operator_bool_on_scalar_keeps_tag:
  "operator_bool (value_float x) = (Inr False, Value Scalar_t (bool_v False))
   \<and> is_scalar (snd (operator_bool (value_float x :: 'f sqf_value)))
   \<and> \<not> is_boolean (snd (operator_bool (value_float x :: 'f sqf_value)))"
  by (simp add: operator_bool_def as_bool_def is_scalar_def is_boolean_def Let_def)

text \<open>
  Claim C2. The tag matches the payload after every constructor, but not after
  the public non-const conversion \<^verbatim>\<open>operator bool()\<close> on a Scalar: the object is
  then tagged \<^verbatim>\<open>Scalar\<close> and holds a \<^verbatim>\<open>bool\<close>, and the const float accessor and
  \<^verbatim>\<open>to_string\<close> raise \<^verbatim>\<open>std::bad_variant_access\<close> on it. The invariant of the claim
  does not hold on this path.
\<close>

theorem operator_bool_breaks_tag_matches:
  "tag_matches (value_float x)
   \<and> \<not> tag_matches (snd (operator_bool (value_float x)))
   \<and> as_float_const h (snd (operator_bool (value_float x))) = Inl bad_variant_access
   \<and> to_string h escape (snd (operator_bool (value_float x))) = Inl bad_variant_access"
  by (simp add: operator_bool_def as_bool_def Let_def value_float_def as_float_const_def
        to_string.simps)

subsection \<open>Equality\<close>

text \<open>
  Claim C5. \<^verbatim>\<open>equals_invariant\<close> compares two Strings after folding every
  character with \<^verbatim>\<open>tolower\<close>, and compares two Arrays exactly as \<^verbatim>\<open>equals\<close> does:
  \<open>"ABC"\<close> and \<open>"abc"\<close> are equal under \<^verbatim>\<open>equals_invariant\<close>, the one-element
  arrays holding them are not.
\<close>

theorem equals_invariant_folds_strings_only:
  "equals_invariant h (value_string a) (value_string b) = Inr (map tolower a = map tolower b)
   \<and> equals_invariant h (value_vector xs) (value_vector ys)
       = equals h (value_vector xs) (value_vector ys)
   \<and> equals_invariant h (value_string ''ABC'') (value_string ''abc'') = Inr True
   \<and> equals h (value_string ''ABC'') (value_string ''abc'') = Inr False
   \<and> equals_invariant h (value_vector [value_string ''ABC''])
        (value_vector [value_string ''abc'']) = Inr False"
proof -
  have 1: "equals_invariant h (value_string a) (value_string b)
             = Inr (map tolower a = map tolower b)" for a b
    by (simp add: equals_invariant_def map_eq_all2 equal_chars_all2)
  have 2: "equals_invariant h (value_vector xs) (value_vector ys)
             = equals h (value_vector xs) (value_vector ys)" for xs ys
    by (simp add: equals_invariant_def equals_vectors)
  have 3: "map tolower ''ABC'' = map tolower ''abc''"
    by code_simp
  have 4: "equals h (value_string ''ABC'') (value_string ''abc'') = Inr False"
    by (simp add: equals_atoms)
  have 5: "equals_invariant h (value_vector [value_string ''ABC''])
        (value_vector [value_string ''abc'']) = Inr False"
    by (simp add: 2 equals_vectors 4)
  from 1 2 3 4 5 show ?thesis by simp
qed

text \<open>
  Claim C8. \<^verbatim>\<open>equals\<close> on two Arrays is true exactly when they have the same
  length and \<^verbatim>\<open>equals\<close> is true on every pair of elements at the same index. On
  a host whose \<^verbatim>\<open>stof\<close> reads a single digit before a separator as one character, and
  for which different digits are different floats, \<open>[1,2,[3,4]]\<close> parsed twice gives
  equal values, and \<open>[1,2,[3,5]]\<close> and \<open>[1,2,[3,4]]\<close> give unequal ones.
\<close>

theorem equals_arrays_deep:
  assumes digits: "\<And>c rest. c \<in> set ''12345'' \<Longrightarrow> element_end rest \<Longrightarrow>
                     stof h (c # rest) = Inr (d c, 1)"
    and distinct: "\<And>c c'. c \<in> set ''12345'' \<Longrightarrow> c' \<in> set ''12345'' \<Longrightarrow>
                     float_eq h (d c) (d c') = (c = c')"
  shows "((equals h (value_vector xs) (value_vector ys) = Inr True)
            = (length xs = length ys
               \<and> (\<forall>i < length xs. equals h (xs ! i) (ys ! i) = Inr True)))
     \<and> (\<exists>a b. parse h ''[1,2,[3,4]]'' = Inr a \<and> parse h ''[1,2,[3,4]]'' = Inr b
              \<and> equals h a b = Inr True)
     \<and> (\<exists>a b. parse h ''[1,2,[3,5]]'' = Inr a \<and> parse h ''[1,2,[3,4]]'' = Inr b
              \<and> equals h a b = Inr False)"
proof -
  have general: "(equals h (value_vector xs) (value_vector ys) = Inr True)
            = (length xs = length ys
               \<and> (\<forall>i < length xs. equals h (xs ! i) (ys ! i) = Inr True))"
    by (auto simp: equals_vectors equal_loop_True list_all2_conv_all_nth)
  have p4: "parse h ''[1,2,[3,4]]'' =
      Inr (value_vector [value_float (d CHR ''1''), value_float (d CHR ''2''),
             value_vector [value_float (d CHR ''3''), value_float (d CHR ''4'')]])"
    by (simp add: parse_def parse_aux.simps parse_array.simps parse_array_loop.simps
          deref_def parse_scalar_def std_stof_def c_str_def dquote_def squote_def
          digits element_end_def)
  have p5: "parse h ''[1,2,[3,5]]'' =
      Inr (value_vector [value_float (d CHR ''1''), value_float (d CHR ''2''),
             value_vector [value_float (d CHR ''3''), value_float (d CHR ''5'')]])"
    by (simp add: parse_def parse_aux.simps parse_array.simps parse_array_loop.simps
          deref_def parse_scalar_def std_stof_def c_str_def dquote_def squote_def
          digits element_end_def)
  have e4: "equals h
      (value_vector [value_float (d CHR ''1''), value_float (d CHR ''2''),
             value_vector [value_float (d CHR ''3''), value_float (d CHR ''4'')]])
      (value_vector [value_float (d CHR ''1''), value_float (d CHR ''2''),
             value_vector [value_float (d CHR ''3''), value_float (d CHR ''4'')]]) = Inr True"
    by (simp add: equals_vectors equals_atoms distinct)
  have e5: "equals h
      (value_vector [value_float (d CHR ''1''), value_float (d CHR ''2''),
             value_vector [value_float (d CHR ''3''), value_float (d CHR ''5'')]])
      (value_vector [value_float (d CHR ''1''), value_float (d CHR ''2''),
             value_vector [value_float (d CHR ''3''), value_float (d CHR ''4'')]]) = Inr False"
    by (simp add: equals_vectors equals_atoms distinct)
  from general p4 p5 e4 e5 show ?thesis by simp
qed

theorem equals_arrays_deep_witness:
  "(\<exists>a b. parse demo_host ''[1,2,[3,4]]'' = Inr a \<and> parse demo_host ''[1,2,[3,4]]'' = Inr b
              \<and> equals demo_host a b = Inr True)
     \<and> (\<exists>a b. parse demo_host ''[1,2,[3,5]]'' = Inr a \<and> parse demo_host ''[1,2,[3,4]]'' = Inr b
              \<and> equals demo_host a b = Inr False)"
proof -
  have 1: "stof demo_host (c # rest) = Inr (int (of_char c) - 48, 1)"
    if "c \<in> set ''12345''" "element_end rest" for c rest
    using that by (rule demo_digits)
  have 2: "float_eq demo_host (int (of_char c) - 48) (int (of_char c') - 48) = (c = c')"
    if "c \<in> set ''12345''" "c' \<in> set ''12345''" for c c'
    using that by (auto simp: demo_host_def)
  from equals_arrays_deep [of demo_host "\<lambda>c. int (of_char c) - 48", OF 1 2] show ?thesis by blast
qed

subsection \<open>Operators\<close>

lemma arithmetic_scalar_or_false:
  "operator_plus h (value_float x) (value_float y) = Inr (value_float (float_add h x y))
   \<and> operator_minus h (value_float x) (value_float y) = Inr (value_float (float_sub h x y))
   \<and> operator_times h (value_float x) (value_float y) = Inr (value_float (float_mul h x y))
   \<and> operator_divide h (value_float x) (value_float y) = Inr (value_float (float_div h x y))
   \<and> (\<not> (is_scalar a \<and> is_scalar b) \<longrightarrow>
        operator_plus h a b = Inr (value_bool False)
      \<and> operator_minus h a b = Inr (value_bool False)
      \<and> operator_times h a b = Inr (value_bool False)
      \<and> operator_divide h a b = Inr (value_bool False))"
  by (simp add: operator_plus_def operator_minus_def operator_times_def operator_divide_def
        as_float_const_def is_scalar_def)

text \<open>
  Claim C6. On two Scalars held as floats each of \<^verbatim>\<open>+\<close>, \<^verbatim>\<open>-\<close>, \<^verbatim>\<open>*\<close>, \<^verbatim>\<open>/\<close>
  returns the Scalar of the host's result, and with a String operand each
  returns \<open>Boolean(false)\<close>. On a value that is tagged Scalar and holds a
  \<^verbatim>\<open>bool\<close>, which the public \<^verbatim>\<open>operator bool()\<close> leaves behind on a Scalar, all
  four raise \<^verbatim>\<open>std::bad_variant_access\<close>, whichever side the value is on. The
  claim expects a Scalar or \<open>Boolean(false)\<close> for every pair of values.
\<close>

theorem arithmetic_throws_on_stale_scalar:
  "is_scalar (snd (operator_bool (value_float x)))
   \<and> operator_plus h (snd (operator_bool (value_float x))) (value_float y)
       = Inl bad_variant_access
   \<and> operator_minus h (snd (operator_bool (value_float x))) (value_float y)
       = Inl bad_variant_access
   \<and> operator_times h (snd (operator_bool (value_float x))) (value_float y)
       = Inl bad_variant_access
   \<and> operator_divide h (snd (operator_bool (value_float x))) (value_float y)
       = Inl bad_variant_access
   \<and> operator_plus h (value_float y) (snd (operator_bool (value_float x)))
       = Inl bad_variant_access
   \<and> operator_plus h (value_float x) (value_float y) = Inr (value_float (float_add h x y))
   \<and> operator_minus h (value_float x) (value_float y) = Inr (value_float (float_sub h x y))
   \<and> operator_times h (value_float x) (value_float y) = Inr (value_float (float_mul h x y))
   \<and> operator_divide h (value_float x) (value_float y) = Inr (value_float (float_div h x y))
   \<and> operator_plus h (value_string s) (value_float y) = Inr (value_bool False)"
  by (simp add: operator_plus_def operator_minus_def operator_times_def operator_divide_def
        as_float_const_def is_scalar_def operator_bool_def as_bool_def Let_def
        value_float_def)

theorem arithmetic_throws_on_stale_scalar_witness:
  "is_scalar (snd (operator_bool (value_float 5 :: int sqf_value)))
   \<and> operator_plus demo_host (snd (operator_bool (value_float 5))) (value_float 1)
       = Inl bad_variant_access
   \<and> operator_divide demo_host (snd (operator_bool (value_float 5))) (value_float 1)
       = Inl bad_variant_access
   \<and> operator_plus demo_host (value_float 1) (snd (operator_bool (value_float 5)))
       = Inl bad_variant_access
   \<and> operator_plus demo_host (value_float 5) (value_float 1) = Inr (value_float 6)
   \<and> operator_plus demo_host (value_string ''a'') (value_float 1) = Inr (value_bool False)"
  using arithmetic_throws_on_stale_scalar [of 5 demo_host 1 "''a''"]
  by (simp add: demo_host_def)

text \<open>
  Claim C10. On a Scalar with payload \<open>p\<close> the relational operators put the
  literal on the left: \<^verbatim>\<open>v < x\<close> returns \<open>x < p\<close>, \<^verbatim>\<open>v <= x\<close> returns \<open>x <= p\<close>,
  \<^verbatim>\<open>v > x\<close> returns \<open>x > p\<close> and \<^verbatim>\<open>v >= x\<close> returns \<open>x >= p\<close>, the comparison being
  the host's comparison of floats; a \<^verbatim>\<open>double\<close> literal is narrowed to \<^verbatim>\<open>float\<close>
  first. On a receiver that is not a Scalar all of them return false.
\<close>

theorem relational_operands_reversed:
  "operator_lt h (value_float p) x = Inr (float_lt h x p)
   \<and> operator_le h (value_float p) x = Inr (float_le h x p)
   \<and> operator_gt h (value_float p) x = Inr (float_gt h x p)
   \<and> operator_ge h (value_float p) x = Inr (float_ge h x p)
   \<and> operator_lt_double narrow h (value_float p) d = Inr (float_lt h (narrow d) p)
   \<and> operator_le_double narrow h (value_float p) d = Inr (float_le h (narrow d) p)
   \<and> operator_gt_double narrow h (value_float p) d = Inr (float_gt h (narrow d) p)
   \<and> operator_ge_double narrow h (value_float p) d = Inr (float_ge h (narrow d) p)
   \<and> (\<not> is_scalar v \<longrightarrow>
        operator_lt h v x = Inr False \<and> operator_le h v x = Inr False
      \<and> operator_gt h v x = Inr False \<and> operator_ge h v x = Inr False
      \<and> operator_lt_double narrow h v d = Inr False
      \<and> operator_le_double narrow h v d = Inr False
      \<and> operator_gt_double narrow h v d = Inr False
      \<and> operator_ge_double narrow h v d = Inr False)"
  by (simp add: operator_lt_def operator_le_def operator_gt_def operator_ge_def
        operator_lt_double_def operator_le_double_def operator_gt_double_def
        operator_ge_double_def as_float_const_def is_scalar_def)

theorem relational_operands_reversed_witness:
  "\<not> is_scalar (value_bool True :: int sqf_value)
   \<and> operator_lt demo_host (value_bool True) 3 = Inr False
   \<and> operator_lt demo_host (value_float 5) 3 = Inr True
   \<and> operator_gt demo_host (value_float 5) 3 = Inr False
   \<and> operator_le_double (\<lambda>d :: int. d) demo_host (value_float 5) 7 = Inr False"
  using relational_operands_reversed [of demo_host 5 3 "\<lambda>d. d" 7 "value_bool True"]
  by (simp add: is_scalar_def demo_host_def)

subsection \<open>Parser\<close>

text \<open>
  Claim C7. Where \<^verbatim>\<open>parse_\<close> finds a \<open>t\<close> it returns \<open>Boolean(true)\<close> and moves
  the cursor by exactly 4; where it finds an \<open>f\<close> it returns \<open>Boolean(false)\<close> and
  moves the cursor by exactly 5. Nothing is assumed about the characters that
  follow. In particular \<open>txyz\<close> parses to \<open>Boolean(true)\<close> with the cursor at 4.
\<close>

theorem parse_boolean_lenient:
  "(deref view b = Inr CHR ''t'' \<longrightarrow> parse_aux h view b = Inr (value_bool True, b + 4))
   \<and> (deref view b = Inr CHR ''f'' \<longrightarrow> parse_aux h view b = Inr (value_bool False, b + 5))
   \<and> parse_aux h ''txyz'' 0 = Inr (value_bool True, 4)
   \<and> parse h ''txyz'' = Inr (value_bool True)"
proof -
  have t: "parse_aux h view b = Inr (value_bool True, b + 4)"
    if "deref view b = Inr CHR ''t''" for view b
    using that by (simp add: parse_aux.simps parse_boolean_def dquote_def squote_def)
  have f: "parse_aux h view b = Inr (value_bool False, b + 5)"
    if "deref view b = Inr CHR ''f''" for view b
    using that by (simp add: parse_aux.simps parse_boolean_def dquote_def squote_def)
  have d: "deref ''txyz'' 0 = Inr CHR ''t''"
    by (simp add: deref_def)
  from t [OF d] have x: "parse_aux h ''txyz'' 0 = Inr (value_bool True, 4)" by simp
  then have "parse h ''txyz'' = Inr (value_bool True)" by (simp add: parse_def)
  with t f x show ?thesis by blast
qed

theorem parse_boolean_lenient_witness:
  "deref ''txyz'' 0 = Inr CHR ''t''
   \<and> parse_aux demo_host ''txyz'' 0 = Inr (value_bool True, 0 + 4)
   \<and> deref ''[false]'' 1 = Inr CHR ''f''
   \<and> parse_aux demo_host ''[false]'' 1 = Inr (value_bool False, 1 + 5)"
proof -
  have 1: "deref ''txyz'' 0 = Inr CHR ''t''" by (simp add: deref_def)
  have 2: "deref ''[false]'' 1 = Inr CHR ''f''" by (simp add: deref_def)
  from 1 2 parse_boolean_lenient [of "''txyz''" 0 demo_host]
    parse_boolean_lenient [of "''[false]''" 1 demo_host]
  show ?thesis by simp
qed







subsection \<open>The round trip\<close>

text \<open>
  Claim C3. \<^verbatim>\<open>parse(to_string(v, true)).equals(v)\<close> is true for Nil itself and
  for every value built from Boolean, String, Scalar with a rendering that
  round-trips through \<^verbatim>\<open>std::stof\<close>, and Array of such values. It is false for
  the Array whose only element is Nil.
\<close>

theorem roundtrip_of_literals:
  "v = value_nil \<or> has_literal h v \<Longrightarrow> roundtrip h v = Inr True"
proof (erule disjE)
  assume "v = value_nil"
  moreover have "to_string h True value_nil = Inr ''nil''"
    by (simp add: to_string.simps)
  moreover have "parse h ''nil'' = Inr value_nil"
    by (simp add: parse_def parse_aux.simps deref_def dquote_def squote_def)
  ultimately show ?thesis by (simp add: roundtrip_def equals_atoms)
next
  assume lit: "has_literal h v"
  from has_literal_reads_back [OF this]
  obtain s where s: "to_string h True v = Inr s" "s \<noteq> []"
    and rd: "\<And>pre rest. element_end rest \<Longrightarrow>
          parse_aux h (pre @ s @ rest) (length pre) = Inr (v, length pre + length s)"
    by (auto simp: reads_back_def)
  from rd [of "[]" "[]"] have "parse_aux h s 0 = Inr (v, length s)"
    by (simp add: element_end_def)
  with s have "parse h s = Inr v" by (simp add: parse_def)
  with s equals_refl [OF lit] show ?thesis by (simp add: roundtrip_def)
qed

theorem roundtrip_of_literals_witness:
  "has_literal demo_host
     (value_vector [value_float 12, value_string (''a'' @ [dquote] @ '']b''),
        value_vector [value_bool True, value_bool False], value_vector []])
   \<and> roundtrip demo_host
     (value_vector [value_float 12, value_string (''a'' @ [dquote] @ '']b''),
        value_vector [value_bool True, value_bool False], value_vector []]) = Inr True
   \<and> roundtrip demo_host value_nil = Inr True"
proof -
  have 1: "has_literal demo_host
     (value_vector [value_float 12, value_string (''a'' @ [dquote] @ '']b''),
        value_vector [value_bool True, value_bool False], value_vector []])"
    by (simp add: value_vector_def value_float_def value_string_def value_bool_def
          demo_scalar_12)
  from 1 roundtrip_of_literals [of "value_vector [value_float 12, value_string (''a'' @ [dquote] @ '']b''),
        value_vector [value_bool True, value_bool False], value_vector []]" demo_host]
    roundtrip_of_literals [of value_nil demo_host]
  show ?thesis by simp
qed

theorem roundtrip_nil_element_counterexample:
  "roundtrip demo_host (value_vector [value_nil]) = Inr False"
  by (simp add: roundtrip_def to_string.simps parse_def parse_aux.simps parse_array.simps
        parse_array_loop.simps deref_def dquote_def squote_def equals_mismatch)

end
